theory Spec2Isabelle
  imports Main
begin

section \<open>Data model of the triple store\<close>

text \<open>
  A triple is an ordered triple of opaque values (subject, predicate, object). The
  source compares stored triples with \<open>equiv\<close> and looks index keys up in a JavaScript
  \<open>Map\<close>; both are modelled by HOL equality on the value type \<open>'v\<close>, which is what
  they are on the primitive values (strings, numbers) the store is documented for.

  \<open>TripleIds\<close> is a JavaScript \<open>Set<number>\<close>: it iterates in insertion order and
  \<open>add\<close> of a member is a no-op, so it is a duplicate-free list here.
\<close>

type_synonym 'v triple = "'v \<times> 'v \<times> 'v"

type_synonym 'v pattern = "'v option \<times> 'v option \<times> 'v option"

type_synonym tripleIds = "nat list"

definition set_add :: "nat \<Rightarrow> tripleIds \<Rightarrow> tripleIds" where
  "set_add x xs = (if x \<in> set xs then xs else xs @ [x])"

datatype field = FS | FP | FO

text \<open>
  The identifier sets are shared mutable objects: the object stored under a key of a
  field index is created once (\<open>new Set\<close> when the key is absent) and mutated in place
  afterwards, and \<open>allIDs\<close> is one object for the life of the store. A reference to
  such an object is therefore the global set or a (field, key) pair, and reading a
  reference means reading the store.
\<close>

datatype 'v setref = RefAllIDs | RefIndex field 'v

datatype 'v edit = Edit (index: "'v setref") (key: 'v)

text \<open>
  One \<open>next\<close> call on a channel: on \<open>streamAll\<close>, on one of \<open>streamS\<close>, \<open>streamP\<close>,
  \<open>streamO\<close> (\<open>EmitField\<close>), or on the cached selection subscription of a field and key.
\<close>

datatype 'v emission =
    EmitAll "'v setref"
  | EmitField field "'v edit"
  | EmitSel field 'v "'v edit"

record 'v triple_store =
  triples :: "nat \<rightharpoonup> 'v triple"
  indexS :: "'v \<rightharpoonup> tripleIds"
  indexP :: "'v \<rightharpoonup> tripleIds"
  indexO :: "'v \<rightharpoonup> tripleIds"
  indexSelections :: "field \<Rightarrow> 'v \<rightharpoonup> 'v setref option"
  allSelections :: "field \<Rightarrow> 'v setref option"
  allIDs :: tripleIds

text \<open>
  The constructor: empty table, empty indices, empty selection caches, three
  subscriptions to \<open>streamAll\<close> that have not delivered anything yet, empty global set.
  It does not touch the class-level counter \<open>NEXT_ID\<close>.
\<close>

definition new_TripleStore :: "'v triple_store" where
  "new_TripleStore =
     \<lparr> triples = Map.empty, indexS = Map.empty, indexP = Map.empty, indexO = Map.empty,
       indexSelections = (\<lambda>_. Map.empty), allSelections = (\<lambda>_. None), allIDs = [] \<rparr>"

definition index_of :: "field \<Rightarrow> 'v triple_store \<Rightarrow> ('v \<rightharpoonup> tripleIds)" where
  "index_of f st = (case f of FS \<Rightarrow> indexS st | FP \<Rightarrow> indexP st | FO \<Rightarrow> indexO st)"

definition field_of :: "field \<Rightarrow> 'v triple \<Rightarrow> 'v" where
  "field_of f t = (case f of FS \<Rightarrow> fst t | FP \<Rightarrow> fst (snd t) | FO \<Rightarrow> snd (snd t))"

text \<open>
  Reading a set object through its reference. A reference to an index set is only ever
  made from an existing entry; the empty list for a missing entry keeps the function
  total.
\<close>

definition deref :: "'v triple_store \<Rightarrow> 'v setref \<Rightarrow> tripleIds" where
  "deref st r =
     (case r of
        RefAllIDs \<Rightarrow> allIDs st
      | RefIndex f k \<Rightarrow> (case index_of f st k of Some ids \<Rightarrow> ids | None \<Rightarrow> []))"

section \<open>Lookup and insertion\<close>

text \<open>
  The \<open>const index = ...\<close> expression of \<open>findInIndices\<close>: the nested size comparison
  that picks the set to scan.
\<close>

definition smallest_index :: "tripleIds \<Rightarrow> tripleIds \<Rightarrow> tripleIds \<Rightarrow> tripleIds" where
  "smallest_index s p o' =
     (if length s < length p
      then (if length s < length o' then s else if length p < length o' then p else o')
      else (if length p < length o' then p else if length s < length o' then s else o'))"

text \<open>
  \<open>findInIndices\<close>: the result \<open>-1\<close> is \<open>None\<close>. An undefined lookup result is
  \<open>None\<close>; a set object is truthy even when empty. \<open>triples[id]\<close> of a hole is
  \<open>undefined\<close>, which is not \<open>equiv\<close> to a triple.
\<close>

fun findInIndices ::
  "'v triple_store \<Rightarrow> tripleIds option \<Rightarrow> tripleIds option \<Rightarrow> tripleIds option \<Rightarrow> 'v triple
     \<Rightarrow> nat option" where
  "findInIndices st (Some s) (Some p) (Some o') f =
     find (\<lambda>tid. triples st tid = Some f) (smallest_index s p o')"
| "findInIndices st _ _ _ f = None"

definition has :: "'v triple_store \<Rightarrow> 'v triple \<Rightarrow> bool" where
  "has st f =
     (findInIndices st (indexS st (fst f)) (indexP st (fst (snd f))) (indexO st (snd (snd f))) f
        \<noteq> None)"

text \<open>
  \<open>indexSel\<close>: the transform of a selection passes the index set of an edit whose key
  is \<open>equiv\<close> to the selection's key and drops every other edit.
\<close>

definition indexSel :: "'v \<Rightarrow> 'v edit \<Rightarrow> 'v setref list" where
  "indexSel k e = (if key e = k then [index e] else [])"

text \<open>
  Modelled from the spec: the subscription objects of the reactive-channel library are
  not among the sources. A subscription has a current value, the value it delivered
  last (section 6). \<open>sel_deliver\<close> is an edit arriving at the cached selection of a
  field and key: if the selection exists and the edit passes \<open>indexSel\<close>, the index set
  becomes the selection's current value.
\<close>

definition sel_deliver :: "field \<Rightarrow> 'v \<Rightarrow> 'v edit \<Rightarrow> 'v triple_store \<Rightarrow> 'v triple_store" where
  "sel_deliver f k e st =
     (case indexSelections st f k of
        None \<Rightarrow> st
      | Some _ \<Rightarrow>
          (case indexSel k e of
             [] \<Rightarrow> st
           | r # _ \<Rightarrow> st\<lparr>indexSelections :=
                          (indexSelections st)(f := (indexSelections st f)(k \<mapsto> Some r))\<rparr>))"

text \<open>
  Modelled from the spec: what one \<open>next\<close> call changes in the current values of the
  subscriptions the store holds (the library's subscription objects are not among the
  sources). A push on \<open>streamAll\<close> reaches its three subscriptions; an edit on a field
  stream reaches the cached selections of that field, of which only the one with the
  edit's key lets it pass; an edit pushed into a selection reaches that selection.
\<close>

fun store_notify :: "'v emission \<Rightarrow> 'v triple_store \<Rightarrow> 'v triple_store" where
  "store_notify (EmitAll r) st = st\<lparr>allSelections := (\<lambda>_. Some r)\<rparr>"
| "store_notify (EmitField f e) st = sel_deliver f (key e) e st"
| "store_notify (EmitSel f k e) st = sel_deliver f k e st"

text \<open>
  \<open>static NEXT_ID = 0\<close>: the value the class-level counter has when the program starts.
\<close>

definition NEXT_ID :: nat where
  "NEXT_ID = 0"

text \<open>
  \<open>addTriple\<close>. \<open>NEXT_ID\<close> is a static field of the class, shared by every store of
  the process, so it is threaded beside the store: the argument and the result carry
  the pair (counter, store). The result is the returned boolean, the \<open>next\<close> calls
  made on the store's four streams in order, and the new pair. JavaScript numbers are
  exact up to \<open>2^53\<close>; the counter is a natural number here.
\<close>

definition addTriple ::
  "'v triple \<Rightarrow> nat \<times> 'v triple_store \<Rightarrow> bool \<times> 'v emission list \<times> nat \<times> 'v triple_store" where
  "addTriple t gs =
     (case gs of (next_id, st) \<Rightarrow>
      case t of (t0, t1, t2) \<Rightarrow>
        let s = indexS st t0;
            p = indexP st t1;
            o' = indexO st t2
        in if findInIndices st s p o' t \<noteq> None then (False, [], next_id, st)
           else
             let tid = next_id;
                 is = (case s of Some x \<Rightarrow> x | None \<Rightarrow> []);
                 ip = (case p of Some x \<Rightarrow> x | None \<Rightarrow> []);
                 io = (case o' of Some x \<Rightarrow> x | None \<Rightarrow> []);
                 st1 = st\<lparr> triples := (triples st)(tid \<mapsto> t),
                           indexS := (indexS st)(t0 \<mapsto> set_add tid is),
                           indexP := (indexP st)(t1 \<mapsto> set_add tid ip),
                           indexO := (indexO st)(t2 \<mapsto> set_add tid io),
                           allIDs := set_add tid (allIDs st) \<rparr>;
                 evs = [EmitAll RefAllIDs,
                        EmitField FS (Edit (RefIndex FS t0) t0),
                        EmitField FP (Edit (RefIndex FP t1) t1),
                        EmitField FO (Edit (RefIndex FO t2) t2)]
             in (True, evs, Suc next_id, fold store_notify evs st1))"

text \<open>The four \<open>next\<close> calls of a successful \<open>addTriple\<close>, in the order they are made.\<close>

definition add_events :: "'v triple \<Rightarrow> 'v emission list" where
  "add_events t = [EmitAll RefAllIDs,
     EmitField FS (Edit (RefIndex FS (field_of FS t)) (field_of FS t)),
     EmitField FP (Edit (RefIndex FP (field_of FP t)) (field_of FP t)),
     EmitField FO (Edit (RefIndex FO (field_of FO t)) (field_of FO t))]"

fun addTriples ::
  "'v triple list \<Rightarrow> nat \<times> 'v triple_store \<Rightarrow> bool \<times> 'v emission list \<times> nat \<times> 'v triple_store" where
  "addTriples [] gs = (True, [], gs)"
| "addTriples (f # fs) gs =
     (case addTriple f gs of (r, ev, gs') \<Rightarrow>
      case addTriples fs gs' of (ok, evs, gs'') \<Rightarrow> (r \<and> ok, ev @ evs, gs''))"

text \<open>The constructor with its optional argument: \<open>new TripleStore(triples)\<close>.\<close>

definition TripleStore :: "'v triple list \<Rightarrow> nat \<Rightarrow> nat \<times> 'v triple_store" where
  "TripleStore ts next_id = snd (snd (addTriples ts (next_id, new_TripleStore)))"

section \<open>The reactive-channel collaborator\<close>

text \<open>
  Modelled from the spec: the transform stage \<open>map\<close> of the transducer library is not
  among the sources. A transform stage (section 6) takes one delivered value to the list
  of values it passes on; \<open>map\<close> passes the image of the value.
\<close>

definition xf_map :: "('a \<Rightarrow> 'b) \<Rightarrow> 'a \<Rightarrow> 'b list" where
  "xf_map f x = [f x]"

text \<open>
  Modelled from the spec: the transform stage \<open>filter\<close> of the transducer library is not
  among the sources; it passes a value that satisfies the predicate and drops any other.
\<close>

definition xf_filter :: "('a \<Rightarrow> bool) \<Rightarrow> 'a \<Rightarrow> 'a list" where
  "xf_filter P x = (if P x then [x] else [])"

text \<open>
  Modelled from the spec: \<open>comp\<close> of the transducer library is not among the sources; it
  runs its second stage on every value the first stage passes on.
\<close>

definition xf_comp :: "('a \<Rightarrow> 'b list) \<Rightarrow> ('b \<Rightarrow> 'c list) \<Rightarrow> 'a \<Rightarrow> 'c list" where
  "xf_comp g h x = concat (map h (g x))"

text \<open>
  Modelled from the spec: the multi-source combinator \<open>sync\<close> of the reactive-channel
  library (section 6 of the spec) is not among the sources. It keeps the latest known
  value of every source. \<open>sync_next\<close> is a push from one source: the combinator stores
  the value and, once every source has fired at least once, runs the transform stage on
  the tuple of latest values and emits what the stage passes on.
\<close>

definition sync_next ::
  "'i list \<Rightarrow> (('i \<Rightarrow> 'a option) \<Rightarrow> 'b list) \<Rightarrow> 'i \<Rightarrow> 'a \<Rightarrow> ('i \<Rightarrow> 'a option)
     \<Rightarrow> ('i \<Rightarrow> 'a option) \<times> 'b list" where
  "sync_next srcs xform i v latest =
     (let latest' = latest(i \<mapsto> v)
      in (latest', if list_all (\<lambda>j. latest' j \<noteq> None) srcs then xform latest' else []))"

text \<open>
  Modelled from the spec: a sequence of pushes into the combinator \<open>sync\<close> (not among the
  sources), each handled as \<open>sync_next\<close> does, with the emissions in order.
\<close>

fun sync_feed ::
  "'i list \<Rightarrow> (('i \<Rightarrow> 'a option) \<Rightarrow> 'b list) \<Rightarrow> ('i \<times> 'a) list \<Rightarrow> ('i \<Rightarrow> 'a option)
     \<Rightarrow> ('i \<Rightarrow> 'a option) \<times> 'b list" where
  "sync_feed srcs xform [] latest = (latest, [])"
| "sync_feed srcs xform ((i, v) # ds) latest =
     (case sync_next srcs xform i v latest of (l1, out1) \<Rightarrow>
      case sync_feed srcs xform ds l1 of (l2, out2) \<Rightarrow> (l2, out1 @ out2))"

text \<open>
  Modelled from the spec: wiring the combinator \<open>sync\<close> (not among the sources). It
  starts with no value. With the reset option (the spec's \<open>resetOnSubscribe\<close>, section 6
  and section 4.3 step 4) the current values of the sources are replayed into it at
  wiring time, in source order; without it nothing is replayed.
\<close>

definition sync_wire ::
  "'i list \<Rightarrow> (('i \<Rightarrow> 'a option) \<Rightarrow> 'b list) \<Rightarrow> bool \<Rightarrow> ('i \<Rightarrow> 'a option)
     \<Rightarrow> ('i \<Rightarrow> 'a option) \<times> 'b list" where
  "sync_wire srcs xform reset current =
     (if reset
      then sync_feed srcs xform
             (concat (map (\<lambda>i. case current i of None \<Rightarrow> [] | Some v \<Rightarrow> [(i, v)]) srcs))
             (\<lambda>_. None)
      else ((\<lambda>_. None), []))"

text \<open>
  Modelled from the spec: \<open>intersection\<close> of the associative-collections library is not
  among the sources; it yields the members common to both sets.
\<close>

definition intersection :: "tripleIds \<Rightarrow> tripleIds \<Rightarrow> tripleIds" where
  "intersection a b = filter (\<lambda>x. x \<in> set b) a"

section \<open>Pattern queries\<close>

definition pat_field :: "field \<Rightarrow> 'v pattern \<Rightarrow> 'v option" where
  "pat_field f pat = (case f of FS \<Rightarrow> fst pat | FP \<Rightarrow> fst (snd pat) | FO \<Rightarrow> snd (snd pat))"

text \<open>
  \<open>getIndexSelection\<close>: for a concrete key the cached selection of that field and key,
  created (with nothing delivered yet) and cached on first request; for \<open>null\<close> the
  field's subscription to \<open>streamAll\<close>. The three call sites pair \<open>streamS\<close> with
  \<open>"s"\<close>, \<open>streamP\<close> with \<open>"p"\<close> and \<open>streamO\<close> with \<open>"o"\<close>, so the field stands for
  both arguments; the returned subscription is named by the field and the key, and only
  the store is returned.
\<close>

definition getIndexSelection :: "field \<Rightarrow> 'v option \<Rightarrow> 'v triple_store \<Rightarrow> 'v triple_store" where
  "getIndexSelection f k st =
     (case k of
        None \<Rightarrow> st
      | Some k' \<Rightarrow>
          (case indexSelections st f k' of
             Some _ \<Rightarrow> st
           | None \<Rightarrow> st\<lparr>indexSelections :=
                         (indexSelections st)(f := (indexSelections st f)(k' \<mapsto> None))\<rparr>))"

text \<open>The value a source of the query delivered last, read from the store's channels.\<close>

definition source_last :: "'v triple_store \<Rightarrow> 'v pattern \<Rightarrow> field \<Rightarrow> 'v setref option" where
  "source_last st pat f =
     (case pat_field f pat of
        None \<Rightarrow> allSelections st f
      | Some k \<Rightarrow> (case indexSelections st f k of Some l \<Rightarrow> l | None \<Rightarrow> None))"

text \<open>
  The transform of the query's combinator,
  \<open>map(({ s, p, o }) => intersection(intersection(s, p), o))\<close>. \<open>pq_intersect\<close> also
  returns the calls of \<open>intersection\<close> it makes, in evaluation order, with their
  arguments. The tuple holds references; the sets are read when the transform runs.
  The combinator runs the transform on complete tuples only.
\<close>

definition pq_intersect ::
  "tripleIds \<Rightarrow> tripleIds \<Rightarrow> tripleIds \<Rightarrow> (tripleIds \<times> tripleIds) list \<times> tripleIds" where
  "pq_intersect s p o' =
     (let sp = intersection s p;
          r = intersection sp o'
      in ([(s, p), (sp, o')], r))"

definition pq_xform :: "'v triple_store \<Rightarrow> (field \<Rightarrow> 'v setref option) \<Rightarrow> tripleIds list" where
  "pq_xform st tuple =
     (case (tuple FS, tuple FP, tuple FO) of
        (Some s, Some p, Some o') \<Rightarrow>
          xf_map (\<lambda>_. snd (pq_intersect (deref st s) (deref st p) (deref st o'))) tuple
      | _ \<Rightarrow> [])"

record 'v pquery =
  qpattern :: "'v pattern"
  qemitTriples :: bool
  qlatest :: "field \<Rightarrow> 'v setref option"

definition all_wild :: "'v pattern \<Rightarrow> bool" where
  "all_wild pat = (case pat of (s, p, o') \<Rightarrow> s = None \<and> p = None \<and> o' = None)"

text \<open>
  What one \<open>next\<close> call delivers to the sources of a query's combinator: a push on
  \<open>streamAll\<close> reaches the \<open>streamAll\<close> subscriptions of the wildcard fields in the
  order s, p, o; an edit on a field stream, or one pushed into a selection, reaches the
  selection of that field if it passes \<open>indexSel\<close>.
\<close>

fun pq_deliveries :: "'v pattern \<Rightarrow> 'v emission \<Rightarrow> (field \<times> 'v setref) list" where
  "pq_deliveries pat (EmitAll r) =
     map (\<lambda>f. (f, r)) (filter (\<lambda>f. pat_field f pat = None) [FS, FP, FO])"
| "pq_deliveries pat (EmitField f e) =
     (case pat_field f pat of None \<Rightarrow> [] | Some k \<Rightarrow> map (Pair f) (indexSel k e))"
| "pq_deliveries pat (EmitSel f k0 e) =
     (if pat_field f pat = Some k0 then map (Pair f) (indexSel k0 e) else [])"

text \<open>
  One value delivered by a source to the query's combinator while the store is \<open>st\<close>:
  the new query and what the combinator emits.
\<close>

definition pq_deliver ::
  "'v triple_store \<Rightarrow> field \<Rightarrow> 'v setref \<Rightarrow> 'v pquery \<Rightarrow> 'v pquery \<times> tripleIds list" where
  "pq_deliver st f r q =
     (case sync_next [FS, FP, FO] (pq_xform st) f r (qlatest q) of
        (l, out) \<Rightarrow> (q\<lparr>qlatest := l\<rparr>, out))"

fun pq_deliver_all ::
  "'v triple_store \<Rightarrow> (field \<times> 'v setref) list \<Rightarrow> 'v pquery \<Rightarrow> 'v pquery \<times> tripleIds list" where
  "pq_deliver_all st [] q = (q, [])"
| "pq_deliver_all st ((f, r) # ds) q =
     (case pq_deliver st f r q of (q1, out1) \<Rightarrow>
      case pq_deliver_all st ds q1 of (q2, out2) \<Rightarrow> (q2, out1 @ out2))"

text \<open>
  The identifier sets the \<open>results\<close> channel of a query emits on one \<open>next\<close> call made
  while the store is \<open>st\<close>. For the all-wildcard pattern \<open>results\<close> is \<open>streamAll\<close>.
\<close>

definition pq_next ::
  "'v triple_store \<Rightarrow> 'v emission \<Rightarrow> 'v pquery \<Rightarrow> 'v pquery \<times> tripleIds list" where
  "pq_next st ev q =
     (if all_wild (qpattern q)
      then (q, case ev of EmitAll r \<Rightarrow> [deref st r] | _ \<Rightarrow> [])
      else pq_deliver_all st (pq_deliveries (qpattern q) ev) q)"

fun pq_feed ::
  "'v triple_store \<Rightarrow> 'v emission list \<Rightarrow> 'v pquery \<Rightarrow> 'v pquery \<times> tripleIds list" where
  "pq_feed st [] q = (q, [])"
| "pq_feed st (ev # evs) q =
     (case pq_next st ev q of (q1, out1) \<Rightarrow>
      case pq_feed st evs q1 of (q2, out2) \<Rightarrow> (q2, out1 @ out2))"

text \<open>\<open>asTriples\<close>: the set of the stored triples of the identifiers (a hole is \<open>None\<close>).\<close>

definition asTriples :: "'v triple_store \<Rightarrow> tripleIds \<Rightarrow> 'v triple option list" where
  "asTriples st ids = remdups (map (triples st) ids)"

datatype 'v qresult = ResIds tripleIds | ResTriples "'v triple option list"

definition pq_result :: "bool \<Rightarrow> 'v triple_store \<Rightarrow> tripleIds \<Rightarrow> 'v qresult" where
  "pq_result emitTriples st ids = (if emitTriples then ResTriples (asTriples st ids) else ResIds ids)"

text \<open>
  The local helper \<open>submit\<close> of \<open>addPatternQuery\<close>: the \<open>next\<close> call it makes on the
  selection of the field, if any.
\<close>

definition submit :: "field \<Rightarrow> 'v option \<Rightarrow> 'v triple_store \<Rightarrow> 'v emission list" where
  "submit f k st =
     (case k of
        None \<Rightarrow> []
      | Some k' \<Rightarrow>
          (case index_of f st k' of
             None \<Rightarrow> []
           | Some ids \<Rightarrow> [EmitSel f k' (Edit (RefIndex f k') k')]))"

text \<open>
  \<open>addPatternQuery\<close> returns the store (its selection caches may have grown), the new
  query, the \<open>next\<close> calls made by \<open>submit\<close> and what the returned subscription emits
  while the query is built.
\<close>

definition addPatternQuery ::
  "'v pattern \<Rightarrow> bool \<Rightarrow> 'v triple_store
     \<Rightarrow> 'v triple_store \<times> 'v pquery \<times> 'v emission list \<times> 'v qresult list" where
  "addPatternQuery pat emitTriples st =
     (case pat of (s, p, o') \<Rightarrow>
        if s = None \<and> p = None \<and> o' = None
        then (st, \<lparr>qpattern = pat, qemitTriples = emitTriples, qlatest = (\<lambda>_. None)\<rparr>, [], [])
        else
          let st1 = getIndexSelection FS s st;
              st2 = getIndexSelection FP p st1;
              st3 = getIndexSelection FO o' st2
          in case sync_wire [FS, FP, FO] (pq_xform st3) True (source_last st3 pat) of
               (l0, out0) \<Rightarrow>
                 let q0 = \<lparr>qpattern = pat, qemitTriples = emitTriples, qlatest = l0\<rparr>;
                     evs = submit FS s st3 @ submit FP p st3 @ submit FO o' st3;
                     st4 = fold store_notify evs st3
                 in case pq_feed st4 evs q0 of
                      (q1, out1) \<Rightarrow> (st4, q1, evs, map (pq_result emitTriples st4) (out0 @ out1)))"

text \<open>An insertion seen by a query that is subscribed to the store.\<close>

definition add_notify ::
  "'v triple \<Rightarrow> (nat \<times> 'v triple_store) \<times> 'v pquery
     \<Rightarrow> ((nat \<times> 'v triple_store) \<times> 'v pquery) \<times> 'v qresult list" where
  "add_notify t c =
     (case c of (gs, q) \<Rightarrow>
      case addTriple t gs of (r, evs, gs') \<Rightarrow>
      case pq_feed (snd gs') evs q of (q', out) \<Rightarrow>
        ((gs', q'), map (pq_result (qemitTriples q) (snd gs')) out))"

fun run_inserts ::
  "'v triple list \<Rightarrow> (nat \<times> 'v triple_store) \<times> 'v pquery
     \<Rightarrow> ((nat \<times> 'v triple_store) \<times> 'v pquery) \<times> 'v qresult list" where
  "run_inserts [] c = (c, [])"
| "run_inserts (t # ts) c =
     (case add_notify t c of (c1, out1) \<Rightarrow>
      case run_inserts ts c1 of (c2, out2) \<Rightarrow> (c2, out1 @ out2))"


text \<open>
  The set object a source of a query delivers (the global set for a wildcard field, the
  index set of the key for a concrete field), and the value the combinator computes
  from the three of them.
\<close>

definition src_ref :: "'v pattern \<Rightarrow> field \<Rightarrow> 'v setref" where
  "src_ref pat f = (case pat_field f pat of None \<Rightarrow> RefAllIDs | Some k \<Rightarrow> RefIndex f k)"


text \<open>
  The values replayed into a query's combinator when it is wired (the current values of
  its sources, in source order), and the three \<open>submit\<close> calls of \<open>addPatternQuery\<close>.
\<close>

definition wire_deliveries :: "'v triple_store \<Rightarrow> 'v pattern \<Rightarrow> (field \<times> 'v setref) list" where
  "wire_deliveries st pat =
     concat (map (\<lambda>i. case source_last st pat i of None \<Rightarrow> [] | Some v \<Rightarrow> [(i, v)]) [FS, FP, FO])"

definition submit_events :: "'v triple_store \<Rightarrow> 'v pattern \<Rightarrow> 'v emission list" where
  "submit_events st pat =
     submit FS (pat_field FS pat) st @ submit FP (pat_field FP pat) st @ submit FO (pat_field FO pat) st"

definition select_all :: "'v pattern \<Rightarrow> 'v triple_store \<Rightarrow> 'v triple_store" where
  "select_all pat st =
     getIndexSelection FO (pat_field FO pat)
       (getIndexSelection FP (pat_field FP pat) (getIndexSelection FS (pat_field FS pat) st))"

definition new_query :: "'v pattern \<Rightarrow> bool \<Rightarrow> 'v pquery" where
  "new_query pat e = \<lparr>qpattern = pat, qemitTriples = e, qlatest = (\<lambda>_. None)\<rparr>"





section \<open>Parametric queries and joins\<close>

datatype val = Str string | Num int

type_synonym solution = "(string \<times> val) list"

text \<open>
  Modelled from the spec: \<open>illegalArgs\<close> of the error module is not among the sources;
  it raises the invalid-argument error with the given message (section 7).
\<close>

datatype error = IllegalArgumentError string

text \<open>
  Modelled from the spec: \<open>isQVar\<close> (module \<open>qvar\<close>) is not among the sources. A query
  variable is a string with the prefix \<open>?\<close>; \<open>null\<close> and numbers are not.
\<close>

definition isQVar :: "val option \<Rightarrow> bool" where
  "isQVar x = (case x of Some (Str (c # cs)) \<Rightarrow> c = CHR ''?'' | _ \<Rightarrow> False)"

text \<open>
  Modelled from the spec: the name of a query variable (module \<open>qvar\<close>, not among the
  sources) is the rest of the string after the prefix.
\<close>

definition qvarName :: "val option \<Rightarrow> string" where
  "qvarName x = (case x of Some (Str (c # cs)) \<Rightarrow> cs | _ \<Rightarrow> [])"

text \<open>
  Modelled from the spec: \<open>qvarResolver\<close> (module \<open>pattern\<close>) is not among the sources.
  The resolver exists when at least one field is a query variable (otherwise the result
  is \<open>undefined\<close>, here \<open>None\<close>), and maps a triple to the record binding each variable
  of the pattern to the triple's component at its position (section 4.4).
\<close>

definition qvarResolver ::
  "bool \<Rightarrow> bool \<Rightarrow> bool \<Rightarrow> val option \<Rightarrow> val option \<Rightarrow> val option
     \<Rightarrow> (val triple \<Rightarrow> solution) option" where
  "qvarResolver vs vp vo s p o' =
     (if vs \<or> vp \<or> vo
      then Some (\<lambda>f. (if vs then [(qvarName s, field_of FS f)] else []) @
                     (if vp then [(qvarName p, field_of FP f)] else []) @
                     (if vo then [(qvarName o', field_of FO f)] else []))
      else None)"

text \<open>
  The result stage of a parametric query: one solution per triple of the emitted set.
  An identifier set is not what the raw query (built with \<open>emitTriples\<close>) emits, and a
  hole is not in a set of stored triples; both yield no solution here.
\<close>

definition resolve_all :: "(val triple \<Rightarrow> solution) \<Rightarrow> val qresult \<Rightarrow> solution list" where
  "resolve_all resolve r =
     (case r of ResTriples ts \<Rightarrow> List.map_filter (map_option resolve) ts | ResIds ids \<Rightarrow> [])"

text \<open>
  \<open>addParamQuery\<close>: \<open>illegalArgs\<close> throws, which is the \<open>Inl\<close> result; nothing of the
  store is touched before it. Otherwise the raw pattern query is built with the
  variables replaced by \<open>null\<close> and its emissions are resolved.
\<close>

definition addParamQuery ::
  "val pattern \<Rightarrow> val triple_store
     \<Rightarrow> error + (val triple_store \<times> (val pquery \<times> (val triple \<Rightarrow> solution))
                 \<times> val emission list \<times> solution list list)" where
  "addParamQuery pat st =
     (case pat of (s, p, o') \<Rightarrow>
        let vs = isQVar s;
            vp = isQVar p;
            vo = isQVar o'
        in (case qvarResolver vs vp vo s p o' of
              None \<Rightarrow> Inl (IllegalArgumentError ''at least 1 query variable is required in pattern'')
            | Some resolve \<Rightarrow>
                (case addPatternQuery
                        (if vs then None else s, if vp then None else p, if vo then None else o')
                        True st
                 of (st', q, evs, outs) \<Rightarrow>
                      Inr (st', (q, resolve), evs, map (resolve_all resolve) outs))))"

text \<open>
  Modelled from the spec: the test of the natural join (\<open>join\<close> of the
  associative-collections library is not among the sources): two records bind every
  variable name they share to equal values (section 4.5).
\<close>

definition compatible :: "solution \<Rightarrow> solution \<Rightarrow> bool" where
  "compatible x y =
     list_all (\<lambda>k. case (map_of x k, map_of y k) of (Some v, Some w) \<Rightarrow> v = w | _ \<Rightarrow> True)
       (map fst x)"

text \<open>
  Modelled from the spec: the merge of the natural join (\<open>join\<close> is not among the
  sources): the record with the bindings of both records.
\<close>

definition merge_sol :: "solution \<Rightarrow> solution \<Rightarrow> solution" where
  "merge_sol x y = x @ filter (\<lambda>(k, v). map_of x k = None) y"

text \<open>
  Modelled from the spec: \<open>join\<close> of the associative-collections library is not among
  the sources. The natural join holds one merged record for every pair of records, one
  from each side, that bind every variable name they share to equal values.
\<close>

definition join :: "solution list \<Rightarrow> solution list \<Rightarrow> solution list" where
  "join a b = concat (map (\<lambda>x. map (merge_sol x) (filter (compatible x) b)) a)"

datatype jside = JA | JB

text \<open>
  \<open>addQueryJoin\<close>: a combinator over the two sources with the transform
  \<open>comp(map(({ a, b }) => join(a, b)), filter((x) => x.size > 0))\<close> and no reset option.
  \<open>addQueryJoin\<close> is the node as wired, \<open>join_next\<close> an update from one side.
\<close>

definition join_xform :: "(jside \<Rightarrow> solution list option) \<Rightarrow> solution list list" where
  "join_xform =
     xf_comp (xf_map (\<lambda>t. case (t JA, t JB) of (Some a, Some b) \<Rightarrow> join a b | _ \<Rightarrow> []))
             (xf_filter (\<lambda>x. length x > 0))"

definition addQueryJoin ::
  "(jside \<Rightarrow> solution list option) \<Rightarrow> (jside \<Rightarrow> solution list option) \<times> solution list list" where
  "addQueryJoin current = sync_wire [JA, JB] join_xform False current"

definition join_next ::
  "jside \<Rightarrow> solution list \<Rightarrow> (jside \<Rightarrow> solution list option)
     \<Rightarrow> (jside \<Rightarrow> solution list option) \<times> solution list list" where
  "join_next side v latest = sync_next [JA, JB] join_xform side v latest"

section \<open>Reachable states\<close>

text \<open>
  The states of one store and the shared counter: the store is constructed at any
  value of the counter, triples are added to it, queries are built on it, and
  insertions into other stores advance the counter.
\<close>

inductive reachable :: "nat \<times> 'v triple_store \<Rightarrow> bool" where
  reach_new: "reachable (n, new_TripleStore)"
| reach_add: "reachable gs \<Longrightarrow> reachable (snd (snd (addTriple t gs)))"
| reach_query: "reachable (n, st) \<Longrightarrow> reachable (n, fst (addPatternQuery pat e st))"
| reach_other: "reachable (n, st) \<Longrightarrow> reachable (Suc n, st)"

section \<open>Invariants of the store\<close>

text \<open>Every stored identifier is below the counter.\<close>

definition inv_below :: "nat \<times> 'v triple_store \<Rightarrow> bool" where
  "inv_below gs = (\<forall>tid t. triples (snd gs) tid = Some t \<longrightarrow> tid < fst gs)"

text \<open>Every stored triple is in the global set and in the index set of each of its fields.\<close>

definition inv_indexed :: "'v triple_store \<Rightarrow> bool" where
  "inv_indexed st =
     (\<forall>tid t. triples st tid = Some t \<longrightarrow>
        tid \<in> set (allIDs st) \<and>
        (\<forall>f. \<exists>ids. index_of f st (field_of f t) = Some ids \<and> tid \<in> set ids))"

text \<open>Every identifier of a set names a stored triple, with the field value of the set's key.\<close>

definition inv_sound :: "'v triple_store \<Rightarrow> bool" where
  "inv_sound st =
     ((\<forall>tid \<in> set (allIDs st). triples st tid \<noteq> None) \<and>
      (\<forall>f k ids tid. index_of f st k = Some ids \<longrightarrow> tid \<in> set ids \<longrightarrow>
         (\<exists>t. triples st tid = Some t \<and> field_of f t = k)))"

text \<open>
  What the store's channels delivered last: the global set once a triple was added, and
  for a selection the index set of its own key.
\<close>

definition inv_chan :: "'v triple_store \<Rightarrow> bool" where
  "inv_chan st =
     ((\<forall>f r. allSelections st f = Some r \<longrightarrow> r = RefAllIDs) \<and>
      (allIDs st \<noteq> [] \<longrightarrow> (\<forall>f. allSelections st f = Some RefAllIDs)) \<and>
      (\<forall>f k r. indexSelections st f k = Some (Some r) \<longrightarrow>
         r = RefIndex f k \<and> index_of f st k \<noteq> None))"

definition store_inv :: "nat \<times> 'v triple_store \<Rightarrow> bool" where
  "store_inv gs = (inv_below gs \<and> inv_indexed (snd gs) \<and> inv_sound (snd gs) \<and> inv_chan (snd gs))"

section \<open>Properties of lookup and insertion\<close>

lemma index_of_simps [simp]:
  "index_of FS st = indexS st" "index_of FP st = indexP st" "index_of FO st = indexO st"
  by (simp_all add: index_of_def)

lemma index_of_chan_update [simp]:
  "index_of f (st\<lparr>indexSelections := x\<rparr>) = index_of f st"
  "index_of f (st\<lparr>allSelections := y\<rparr>) = index_of f st"
  by (cases f; simp)+

lemma field_of_simps [simp]:
  "field_of FS (a, b, c) = a" "field_of FP (a, b, c) = b" "field_of FO (a, b, c) = c"
  by (simp_all add: field_of_def)

lemma set_set_add [simp]: "set (set_add x xs) = insert x (set xs)"
  by (auto simp: set_add_def)

lemma distinct_set_add: "distinct xs \<Longrightarrow> distinct (set_add x xs)"
  by (simp add: set_add_def)

lemma sel_deliver_data [simp]:
  "triples (sel_deliver f k e st) = triples st"
  "indexS (sel_deliver f k e st) = indexS st"
  "indexP (sel_deliver f k e st) = indexP st"
  "indexO (sel_deliver f k e st) = indexO st"
  "allIDs (sel_deliver f k e st) = allIDs st"
  "allSelections (sel_deliver f k e st) = allSelections st"
  by (simp_all add: sel_deliver_def split: option.splits list.splits)

lemma store_notify_data [simp]:
  "triples (store_notify ev st) = triples st"
  "indexS (store_notify ev st) = indexS st"
  "indexP (store_notify ev st) = indexP st"
  "indexO (store_notify ev st) = indexO st"
  "allIDs (store_notify ev st) = allIDs st"
  by (cases ev; simp)+

lemma fold_store_notify_data [simp]:
  "triples (fold store_notify evs st) = triples st"
  "indexS (fold store_notify evs st) = indexS st"
  "indexP (fold store_notify evs st) = indexP st"
  "indexO (fold store_notify evs st) = indexO st"
  "allIDs (fold store_notify evs st) = allIDs st"
  by (induction evs arbitrary: st; simp)+

lemma index_of_notify [simp]:
  "index_of f (store_notify ev st) = index_of f st"
  "index_of f (fold store_notify evs st) = index_of f st"
  by (cases f; simp)+

lemma deref_notify [simp]:
  "deref (store_notify ev st) r = deref st r"
  "deref (fold store_notify evs st) r = deref st r"
  by (simp_all add: deref_def split: setref.splits)

lemma addTriple_dup:
  "has st t \<Longrightarrow> addTriple t (n, st) = (False, [], n, st)"
  by (cases t) (simp add: addTriple_def has_def Let_def)

lemma addTriple_fresh:
  assumes "\<not> has st t"
  obtains st' where "addTriple t (n, st) = (True, add_events t, Suc n, st')"
    and "triples st' = (triples st)(n \<mapsto> t)"
    and "\<And>f. index_of f st' = (index_of f st)(field_of f t \<mapsto>
            set_add n (case index_of f st (field_of f t) of Some x \<Rightarrow> x | None \<Rightarrow> []))"
    and "allIDs st' = set_add n (allIDs st)"
    and "allSelections st' = (\<lambda>_. Some RefAllIDs)"
    and "\<And>f k. indexSelections st' f k =
            (if k = field_of f t \<and> indexSelections st f k \<noteq> None then Some (Some (RefIndex f k))
             else indexSelections st f k)"
proof -
  obtain t0 t1 t2 where t: "t = (t0, t1, t2)" by (cases t)
  let ?st' = "snd (snd (snd (addTriple t (n, st))))"
  have 1: "addTriple t (n, st) = (True, add_events t, Suc n, ?st')"
    using assms by (simp add: t addTriple_def has_def Let_def add_events_def)
  have 2: "triples ?st' = (triples st)(n \<mapsto> t)"
    using assms by (simp add: t addTriple_def has_def Let_def)
  have 3: "index_of f ?st' = (index_of f st)(field_of f t \<mapsto>
            set_add n (case index_of f st (field_of f t) of Some x \<Rightarrow> x | None \<Rightarrow> []))" for f
    using assms by (cases f) (simp_all add: t addTriple_def has_def Let_def)
  have 4: "allIDs ?st' = set_add n (allIDs st)"
    using assms by (simp add: t addTriple_def has_def Let_def)
  have 5: "allSelections ?st' = (\<lambda>_. Some RefAllIDs)"
    using assms by (simp add: t addTriple_def has_def Let_def)
  have 6: "indexSelections ?st' f k =
            (if k = field_of f t \<and> indexSelections st f k \<noteq> None then Some (Some (RefIndex f k))
             else indexSelections st f k)" for f k
    using assms 
    by (cases f) (auto simp add: t addTriple_def has_def Let_def sel_deliver_def indexSel_def split: option.splits)
  show ?thesis using that[OF 1 2 3 4 5 6] .
qed


lemma store_inv_new: "store_inv (n, new_TripleStore)"
  by (simp add: store_inv_def inv_below_def inv_indexed_def inv_sound_def inv_chan_def
      new_TripleStore_def index_of_def split: field.splits)

lemma store_inv_other: "store_inv (n, st) \<Longrightarrow> store_inv (Suc n, st)"
  by (auto simp: store_inv_def inv_below_def less_Suc_eq)

lemma inv_indexedD1: "inv_indexed st \<Longrightarrow> triples st tid = Some t \<Longrightarrow> tid \<in> set (allIDs st)"
  unfolding inv_indexed_def by blast

lemma inv_indexedD2:
  "inv_indexed st \<Longrightarrow> triples st tid = Some t \<Longrightarrow>
     \<exists>ids. index_of f st (field_of f t) = Some ids \<and> tid \<in> set ids"
  unfolding inv_indexed_def by blast

lemma inv_soundD1: "inv_sound st \<Longrightarrow> tid \<in> set (allIDs st) \<Longrightarrow> \<exists>t. triples st tid = Some t"
  unfolding inv_sound_def by blast

lemma inv_soundD2:
  "inv_sound st \<Longrightarrow> index_of f st k = Some ids \<Longrightarrow> tid \<in> set ids \<Longrightarrow>
     \<exists>t. triples st tid = Some t \<and> field_of f t = k"
  unfolding inv_sound_def by blast


lemma smallest_index_mem:
  "x \<in> set s \<Longrightarrow> x \<in> set p \<Longrightarrow> x \<in> set o' \<Longrightarrow> x \<in> set (smallest_index s p o')"
  by (simp add: smallest_index_def)



lemma store_inv_addTriple:
  assumes "store_inv gs"
  shows "store_inv (snd (snd (addTriple t gs)))"
proof -
  obtain n st where gs: "gs = (n, st)" by (cases gs)
  show ?thesis
  proof (cases "has st t")
    case True
    then show ?thesis using assms by (simp add: gs addTriple_dup)
  next
    case False
    from addTriple_fresh[OF False, of n] obtain st' where
      a: "addTriple t (n, st) = (True, add_events t, Suc n, st')"
      and tr: "triples st' = (triples st)(n \<mapsto> t)"
      and ix: "\<And>f. index_of f st' = (index_of f st)(field_of f t \<mapsto>
            set_add n (case index_of f st (field_of f t) of Some x \<Rightarrow> x | None \<Rightarrow> []))"
      and al: "allIDs st' = set_add n (allIDs st)"
      and as: "allSelections st' = (\<lambda>_. Some RefAllIDs)"
      and isel: "\<And>f k. indexSelections st' f k =
            (if k = field_of f t \<and> indexSelections st f k \<noteq> None then Some (Some (RefIndex f k))
             else indexSelections st f k)"
      by blast
    from assms have b: "inv_below (n, st)" and i: "inv_indexed st" and s: "inv_sound st"
      and c: "inv_chan st" by (simp_all add: store_inv_def gs)
    have fresh: "triples st n = None"
    proof (cases "triples st n")
      case (Some u)
      then have "n < n" using b unfolding inv_below_def by fastforce
      then show ?thesis by simp
    qed simp
    have b': "inv_below (Suc n, st')"
      using b by (auto simp: inv_below_def tr less_Suc_eq)
    have i': "inv_indexed st'"
      unfolding inv_indexed_def
    proof (intro allI impI conjI)
      fix tid u assume h: "triples st' tid = Some u"
      show "tid \<in> set (allIDs st')" using h inv_indexedD1[OF i, of tid u]
        by (auto simp: tr al split: if_splits)
      fix f
      show "\<exists>ids. index_of f st' (field_of f u) = Some ids \<and> tid \<in> set ids"
      proof (cases "tid = n")
        case True
        then show ?thesis using h by (simp add: tr ix)
      next
        case False
        then have "triples st tid = Some u" using h by (simp add: tr)
        then obtain ids where "index_of f st (field_of f u) = Some ids" "tid \<in> set ids"
          using inv_indexedD2[OF i] by blast
        then show ?thesis by (auto simp: ix)
      qed
    qed
    have s': "inv_sound st'"
      unfolding inv_sound_def
    proof (intro conjI ballI allI impI)
      fix tid assume "tid \<in> set (allIDs st')"
      then show "triples st' tid \<noteq> None" using inv_soundD1[OF s, of tid]
        by (cases "tid = n") (auto simp: al tr)
    next
      fix f k ids tid assume h: "index_of f st' k = Some ids" "tid \<in> set ids"
      show "\<exists>u. triples st' tid = Some u \<and> field_of f u = k"
      proof (cases "tid = n")
        case True
        have "k = field_of f t"
        proof (rule ccontr)
          assume "k \<noteq> field_of f t"
          then have "index_of f st k = Some ids" using h by (simp add: ix)
          then obtain u where "triples st tid = Some u" using inv_soundD2[OF s _ h(2)] by blast
          then show False using fresh True by simp
        qed
        then show ?thesis using True by (simp add: tr)
      next
        case False
        have "\<exists>ids0. index_of f st k = Some ids0 \<and> tid \<in> set ids0"
          using h False by (auto simp: ix split: if_splits option.splits)
        then obtain u where "triples st tid = Some u" "field_of f u = k"
          using inv_soundD2[OF s] by blast
        then show ?thesis using False by (simp add: tr)
      qed
    qed
    have c': "inv_chan st'"
      using c by (auto simp: inv_chan_def as isel ix split: if_splits)
    show ?thesis using b' i' s' c' by (simp add: gs a store_inv_def)
  qed
qed


lemma getIndexSelection_data [simp]:
  "triples (getIndexSelection f k st) = triples st"
  "indexS (getIndexSelection f k st) = indexS st"
  "indexP (getIndexSelection f k st) = indexP st"
  "indexO (getIndexSelection f k st) = indexO st"
  "allIDs (getIndexSelection f k st) = allIDs st"
  "allSelections (getIndexSelection f k st) = allSelections st"
  by (simp_all add: getIndexSelection_def split: option.splits)

lemma index_of_getIndexSelection [simp]:
  "index_of f' (getIndexSelection f k st) = index_of f' st"
  by (cases f') simp_all

lemma deref_getIndexSelection [simp]: "deref (getIndexSelection f k st) r = deref st r"
  by (simp add: deref_def split: setref.splits)

lemma inv_chan_getIndexSelection: "inv_chan st \<Longrightarrow> inv_chan (getIndexSelection f k st)"
  unfolding inv_chan_def
  by (auto simp: getIndexSelection_def split: option.splits if_splits)

lemma inv_chan_sel_deliver:
  "inv_chan st \<Longrightarrow> index_of f st k \<noteq> None \<Longrightarrow>
     inv_chan (sel_deliver f k (Edit (RefIndex f k) k) st)"
  unfolding inv_chan_def
  by (auto simp: sel_deliver_def indexSel_def split: option.splits if_splits)

lemma submit_cases:
  "submit f k st = [] \<or>
   (\<exists>k'. k = Some k' \<and> index_of f st k' \<noteq> None \<and>
      submit f k st = [EmitSel f k' (Edit (RefIndex f k') k')])"
  by (auto simp: submit_def split: option.splits)

lemma inv_chan_submit:
  assumes "inv_chan st" "index_of f st0 = index_of f st"
  shows "inv_chan (fold store_notify (submit f k st0) st)"
  using submit_cases[of f k st0] assms by (auto simp: inv_chan_sel_deliver)

lemma addPatternQuery_store:
  "fst (addPatternQuery (s, p, o') e st) =
     (if s = None \<and> p = None \<and> o' = None then st
      else (let st3 = getIndexSelection FO o' (getIndexSelection FP p (getIndexSelection FS s st))
            in fold store_notify (submit FO o' st3)
                 (fold store_notify (submit FP p st3) (fold store_notify (submit FS s st3) st3))))"
  by (simp add: addPatternQuery_def Let_def split: prod.splits)

lemma addPatternQuery_data [simp]:
  "triples (fst (addPatternQuery pat e st)) = triples st"
  "indexS (fst (addPatternQuery pat e st)) = indexS st"
  "indexP (fst (addPatternQuery pat e st)) = indexP st"
  "indexO (fst (addPatternQuery pat e st)) = indexO st"
  "allIDs (fst (addPatternQuery pat e st)) = allIDs st"
  by (cases pat; simp add: addPatternQuery_store Let_def)+

lemma index_of_addPatternQuery [simp]:
  "index_of f (fst (addPatternQuery pat e st)) = index_of f st"
  by (cases f) simp_all

lemma inv_chan_addPatternQuery:
  assumes "inv_chan st"
  shows "inv_chan (fst (addPatternQuery pat e st))"
proof -
  obtain s p o' where pat: "pat = (s, p, o')" by (cases pat)
  let ?st3 = "getIndexSelection FO o' (getIndexSelection FP p (getIndexSelection FS s st))"
  have 3: "inv_chan ?st3" using assms by (intro inv_chan_getIndexSelection)
  have 4: "inv_chan (fold store_notify (submit FS s ?st3) ?st3)"
    by (rule inv_chan_submit[OF 3]) simp
  have 5: "inv_chan (fold store_notify (submit FP p ?st3) (fold store_notify (submit FS s ?st3) ?st3))"
    by (rule inv_chan_submit[OF 4]) simp
  have 6: "inv_chan (fold store_notify (submit FO o' ?st3)
             (fold store_notify (submit FP p ?st3) (fold store_notify (submit FS s ?st3) ?st3)))"
    by (rule inv_chan_submit[OF 5]) simp
  show ?thesis using assms 6 by (simp add: pat addPatternQuery_store Let_def)
qed

lemma store_inv_query: "store_inv (n, st) \<Longrightarrow> store_inv (n, fst (addPatternQuery pat e st))"
  unfolding store_inv_def
  by (simp add: inv_chan_addPatternQuery inv_below_def inv_indexed_def inv_sound_def)

lemma reachable_inv: "reachable gs \<Longrightarrow> store_inv gs"
  by (induction rule: reachable.induct)
    (simp_all add: store_inv_new store_inv_addTriple store_inv_query store_inv_other)



section \<open>Claims about insertion and lookup\<close>



lemma addTriple_success:
  assumes "addTriple (s, p, o') (n, st) = (True, evs, n', st')"
  shows "has st' (s, p, o') \<and> triples st' n = Some (s, p, o') \<and>
         (\<exists>ids. indexS st' s = Some ids \<and> n \<in> set ids) \<and>
         (\<exists>ids. indexP st' p = Some ids \<and> n \<in> set ids) \<and>
         (\<exists>ids. indexO st' o' = Some ids \<and> n \<in> set ids) \<and>
         n \<in> set (allIDs st')"
proof -
  have nh: "\<not> has st (s, p, o')"
    using assms addTriple_dup[of st "(s, p, o')" n] by auto
  from addTriple_fresh[OF nh, of n] obtain st2 where
    a: "addTriple (s, p, o') (n, st) = (True, add_events (s, p, o'), Suc n, st2)"
    and tr: "triples st2 = (triples st)(n \<mapsto> (s, p, o'))"
    and ix: "\<And>f. index_of f st2 = (index_of f st)(field_of f (s, p, o') \<mapsto>
            set_add n (case index_of f st (field_of f (s, p, o')) of Some x \<Rightarrow> x | None \<Rightarrow> []))"
    and al: "allIDs st2 = set_add n (allIDs st)"
    and "allSelections st2 = (\<lambda>_. Some RefAllIDs)"
    and "\<And>f k. indexSelections st2 f k =
            (if k = field_of f (s, p, o') \<and> indexSelections st f k \<noteq> None
             then Some (Some (RefIndex f k)) else indexSelections st f k)"
    by blast
  have st': "st' = st2" using assms a by simp
  have 1: "triples st' n = Some (s, p, o')" by (simp add: st' tr)
  define a1 where "a1 = set_add n (case indexS st s of Some x \<Rightarrow> x | None \<Rightarrow> [])"
  define a2 where "a2 = set_add n (case indexP st p of Some x \<Rightarrow> x | None \<Rightarrow> [])"
  define a3 where "a3 = set_add n (case indexO st o' of Some x \<Rightarrow> x | None \<Rightarrow> [])"
  have 2: "indexS st' s = Some a1" "n \<in> set a1" using ix[of FS] by (simp_all add: st' a1_def)
  have 3: "indexP st' p = Some a2" "n \<in> set a2" using ix[of FP] by (simp_all add: st' a2_def)
  have 4: "indexO st' o' = Some a3" "n \<in> set a3" using ix[of FO] by (simp_all add: st' a3_def)
  have 5: "n \<in> set (allIDs st')" by (simp add: st' al)
  have "n \<in> set (smallest_index a1 a2 a3)" using 2 3 4 by (simp add: smallest_index_mem)
  then have "find (\<lambda>i. triples st' i = Some (s, p, o')) (smallest_index a1 a2 a3) \<noteq> None"
    using 1 by (auto simp: find_None_iff)
  then have 6: "has st' (s, p, o')" by (simp add: has_def 2 3 4)
  show ?thesis using 1 2 3 4 5 6 by simp
qed


text \<open>
  C2. When \<open>addTriple (s, p, o)\<close> returns true, the triple was given the value \<open>n\<close> of
  the counter as its identifier; right afterwards \<open>has\<close> is true of the triple, and
  \<open>n\<close> is in the subject index set of \<open>s\<close>, the predicate index set of \<open>p\<close>, the
  object index set of \<open>o\<close> and the global identifier set.
\<close>

theorem addTriple_contained:
  assumes "addTriple (s, p, o') (n, st) = (True, evs, n', st')"
  shows "has st' (s, p, o') \<and> triples st' n = Some (s, p, o') \<and>
         (\<exists>ids. indexS st' s = Some ids \<and> n \<in> set ids) \<and>
         (\<exists>ids. indexP st' p = Some ids \<and> n \<in> set ids) \<and>
         (\<exists>ids. indexO st' o' = Some ids \<and> n \<in> set ids) \<and>
         n \<in> set (allIDs st')"
  using assms by (rule addTriple_success)

lemma addTriple_new:
  "addTriple (s, p, o') (n, new_TripleStore) =
     (True, fst (snd (addTriple (s, p, o') (n, new_TripleStore))), Suc n,
      snd (snd (snd (addTriple (s, p, o') (n, new_TripleStore)))))"
  by (simp add: addTriple_def new_TripleStore_def Let_def)

theorem addTriple_contained_witness:
  "fst (addTriple (''a'', ''b'', ''c'') (0, new_TripleStore)) \<and>
   has (snd (snd (snd (addTriple (''a'', ''b'', ''c'') (0, new_TripleStore))))) (''a'', ''b'', ''c'') \<and>
   0 \<in> set (allIDs (snd (snd (snd (addTriple (''a'', ''b'', ''c'') (0, new_TripleStore))))))"
  using addTriple_contained[OF addTriple_new[of "''a''" "''b''" "''c''" 0]]
    addTriple_new[of "''a''" "''b''" "''c''" 0]
  by (metis fst_conv)



text \<open>
  C5 as stated fails: the counter is a static field of the class, so a store constructed
  after another store has added a triple does not give its first triple the
  identifier 0. Here the first store adds one triple and the second store's first
  triple gets the identifier 1.
\<close>

theorem second_store_first_id_counterexample:
  "fst (addTriple (''x'', ''y'', ''z'')
          (TripleStore [] (fst (snd (snd (addTriple (''a'', ''b'', ''c'') (TripleStore [] NEXT_ID))))))) \<and>
   triples (snd (snd (snd (addTriple (''x'', ''y'', ''z'')
          (TripleStore [] (fst (snd (snd (addTriple (''a'', ''b'', ''c'') (TripleStore [] NEXT_ID))))))))))
      0 \<noteq> Some (''x'', ''y'', ''z'') \<and>
   triples (snd (snd (snd (addTriple (''x'', ''y'', ''z'')
          (TripleStore [] (fst (snd (snd (addTriple (''a'', ''b'', ''c'') (TripleStore [] NEXT_ID))))))))))
      (Suc 0) = Some (''x'', ''y'', ''z'')"
  by (simp add: TripleStore_def NEXT_ID_def addTriple_def new_TripleStore_def Let_def)

text \<open>
  C5 amended. The counter is shared by all stores of the process: it is zero when the
  program starts, constructing a store leaves it as it is, every identifier stored in a
  reachable store is below it, a failed insertion leaves it as it is, and a successful
  insertion stores the triple under the counter's value and increments the counter by
  one. So identifiers are never reused, and the first triple of a store gets the number
  of insertions made before by all stores.
\<close>

theorem next_id_shared:
  assumes "reachable (n, st)"
  shows "NEXT_ID = 0 \<and>
         TripleStore [] n = (n, new_TripleStore :: 'v triple_store) \<and>
         (\<forall>tid u. triples st tid = Some u \<longrightarrow> tid < n) \<and>
         (has st t \<longrightarrow> addTriple t (n, st) = (False, [], n, (st :: 'v triple_store))) \<and>
         (\<not> has st t \<longrightarrow>
            (\<exists>evs st'. addTriple t (n, st) = (True, evs, Suc n, st') \<and>
                       triples st' = (triples st)(n \<mapsto> t)))"
proof (intro conjI impI)
  show "NEXT_ID = 0" by (simp add: NEXT_ID_def)
  show "TripleStore [] n = (n, new_TripleStore :: 'v triple_store)" by (simp add: TripleStore_def)
  have "inv_below (n, st)" using reachable_inv[OF assms] by (simp add: store_inv_def)
  then show "\<forall>tid u. triples st tid = Some u \<longrightarrow> tid < n" by (simp add: inv_below_def)
next
  assume "has st t"
  then show "addTriple t (n, st) = (False, [], n, st)" by (rule addTriple_dup)
next
  assume nh: "\<not> has st t"
  obtain st' where
    a: "addTriple t (n, st) = (True, add_events t, Suc n, st')"
    and tr: "triples st' = (triples st)(n \<mapsto> t)"
    by (rule addTriple_fresh[OF nh, of n])
  show "\<exists>evs st'. addTriple t (n, st) = (True, evs, Suc n, st') \<and>
                   triples st' = (triples st)(n \<mapsto> t)"
    by (intro exI conjI) (rule a, rule tr)
qed

theorem next_id_shared_witness:
  "reachable (Suc 0, new_TripleStore :: string triple_store) \<and>
   \<not> has (new_TripleStore :: string triple_store) (''x'', ''y'', ''z'') \<and>
   (\<exists>evs st'. addTriple (''x'', ''y'', ''z'') (Suc 0, new_TripleStore) = (True, evs, Suc (Suc 0), st') \<and>
              triples st' = [Suc 0 \<mapsto> (''x'', ''y'', ''z'')])"
proof -
  have r: "reachable (Suc 0, new_TripleStore :: string triple_store)" by (rule reach_new)
  have h: "\<not> has (new_TripleStore :: string triple_store) (''x'', ''y'', ''z'')"
    by (simp add: has_def new_TripleStore_def)
  show ?thesis
    using next_id_shared[OF r, of "(''x'', ''y'', ''z'')"] r h
    by (simp add: new_TripleStore_def)
qed

text \<open>
  C7. A successful \<open>addTriple\<close> makes exactly four \<open>next\<close> calls, in this order: the
  global identifier set on \<open>streamAll\<close>, then the edit of the subject's index set and
  the subject on \<open>streamS\<close>, then the same for the predicate on \<open>streamP\<close> and for the
  object on \<open>streamO\<close>; the sets passed already hold the new identifier. A failed
  \<open>addTriple\<close> makes no \<open>next\<close> call.
\<close>

theorem addTriple_emissions:
  assumes "addTriple (s, p, o') (n, st) = (r, evs, n', st')"
  shows "if r
         then evs = [EmitAll RefAllIDs,
                     EmitField FS (Edit (RefIndex FS s) s),
                     EmitField FP (Edit (RefIndex FP p) p),
                     EmitField FO (Edit (RefIndex FO o') o')] \<and>
              deref st' RefAllIDs = set_add n (allIDs st) \<and>
              n \<in> set (deref st' (RefIndex FS s)) \<and>
              n \<in> set (deref st' (RefIndex FP p)) \<and>
              n \<in> set (deref st' (RefIndex FO o'))
         else evs = []"
proof (cases "has st (s, p, o')")
  case True
  then show ?thesis using assms by (simp add: addTriple_dup)
next
  case False
  from addTriple_fresh[OF False, of n] obtain st2 where
    a: "addTriple (s, p, o') (n, st) = (True, add_events (s, p, o'), Suc n, st2)"
    and tr: "triples st2 = (triples st)(n \<mapsto> (s, p, o'))"
    and ix: "\<And>f. index_of f st2 = (index_of f st)(field_of f (s, p, o') \<mapsto>
            set_add n (case index_of f st (field_of f (s, p, o')) of Some x \<Rightarrow> x | None \<Rightarrow> []))"
    and al: "allIDs st2 = set_add n (allIDs st)"
    and "allSelections st2 = (\<lambda>_. Some RefAllIDs)"
    and "\<And>f k. indexSelections st2 f k =
            (if k = field_of f (s, p, o') \<and> indexSelections st f k \<noteq> None
             then Some (Some (RefIndex f k)) else indexSelections st f k)"
    by blast
  have e: "r = True" "evs = add_events (s, p, o')" "st' = st2" using assms a by simp_all
  have 1: "deref st' RefAllIDs = set_add n (allIDs st)" by (simp add: deref_def e al)
  have 2: "n \<in> set (deref st' (RefIndex f (field_of f (s, p, o'))))" for f
    by (simp add: deref_def e ix)
  show ?thesis using 1 2[of FS] 2[of FP] 2[of FO] by (simp add: e add_events_def)
qed

theorem addTriple_emissions_witness:
  "fst (snd (addTriple (''a'', ''b'', ''c'') (0, new_TripleStore))) =
     [EmitAll RefAllIDs,
      EmitField FS (Edit (RefIndex FS ''a'') ''a''),
      EmitField FP (Edit (RefIndex FP ''b'') ''b''),
      EmitField FO (Edit (RefIndex FO ''c'') ''c'')] \<and>
   fst (snd (addTriple (''a'', ''b'', ''c'')
      (snd (snd (addTriple (''a'', ''b'', ''c'') (0, new_TripleStore)))))) = []"
proof -
  let ?r1 = "addTriple (''a'', ''b'', ''c'') (0, new_TripleStore)"
  let ?r2 = "addTriple (''a'', ''b'', ''c'') (snd (snd ?r1))"
  have 1: "?r1 = (True, fst (snd ?r1), Suc 0, snd (snd (snd ?r1)))"
    by (rule addTriple_new)
  have "has (snd (snd (snd ?r1))) (''a'', ''b'', ''c'')"
    using addTriple_success[OF 1] by simp
  then have "addTriple (''a'', ''b'', ''c'') (Suc 0, snd (snd (snd ?r1))) =
               (False, [], Suc 0, snd (snd (snd ?r1)))"
    by (rule addTriple_dup)
  moreover have "snd (snd ?r1) = (Suc 0, snd (snd (snd ?r1)))"
    using 1 by (metis snd_conv)
  ultimately have 2: "addTriple (''a'', ''b'', ''c'') (Suc 0, snd (snd (snd ?r1))) =
      (False, fst (snd ?r2), Suc 0, snd (snd (snd ?r1)))"
    by simp
  show ?thesis
    using addTriple_emissions[OF 1] addTriple_emissions[OF 2]
      \<open>snd (snd ?r1) = (Suc 0, snd (snd (snd ?r1)))\<close>
    by simp
qed

section \<open>Claims about parametric queries and joins\<close>

text \<open>
  C9. When none of the three fields of the pattern is a query variable,
  \<open>addParamQuery\<close> fails with the illegal-argument error, and the failure carries no
  store, query or emission: nothing was wired or delivered. When at least one field is
  a query variable it does not fail.
\<close>

theorem addParamQuery_requires_qvar:
  "(\<not> isQVar s \<and> \<not> isQVar p \<and> \<not> isQVar o' \<longrightarrow>
      addParamQuery (s, p, o') st =
        Inl (IllegalArgumentError ''at least 1 query variable is required in pattern'')) \<and>
   (isQVar s \<or> isQVar p \<or> isQVar o' \<longrightarrow> (\<exists>r. addParamQuery (s, p, o') st = Inr r))"
  by (auto simp: addParamQuery_def qvarResolver_def Let_def split: prod.splits)

theorem addParamQuery_requires_qvar_witness:
  "addParamQuery (Some (Str ''asterix''), Some (Str ''friend''), None) new_TripleStore =
     Inl (IllegalArgumentError ''at least 1 query variable is required in pattern'') \<and>
   (\<exists>r. addParamQuery (Some (Str ''?a''), Some (Str ''friend''), Some (Str ''?b'')) new_TripleStore
          = Inr r)"
  using addParamQuery_requires_qvar[of "Some (Str ''asterix'')" "Some (Str ''friend'')" None
      new_TripleStore]
    addParamQuery_requires_qvar[of "Some (Str ''?a'')" "Some (Str ''friend'')" "Some (Str ''?b'')"
      new_TripleStore]
  by (simp add: isQVar_def)

lemma compatible_iff:
  "compatible x y \<longleftrightarrow> (\<forall>k v w. map_of x k = Some v \<longrightarrow> map_of y k = Some w \<longrightarrow> v = w)"
proof
  assume c: "compatible x y"
  show "\<forall>k v w. map_of x k = Some v \<longrightarrow> map_of y k = Some w \<longrightarrow> v = w"
  proof (intro allI impI)
    fix k v w assume h: "map_of x k = Some v" "map_of y k = Some w"
    then have "k \<in> set (map fst x)" by (metis map_of_eq_None_iff option.distinct(1) set_map)
    then show "v = w" using c h by (auto simp: compatible_def list_all_iff)
  qed
next
  assume "\<forall>k v w. map_of x k = Some v \<longrightarrow> map_of y k = Some w \<longrightarrow> v = w"
  then show "compatible x y"
    by (auto simp: compatible_def list_all_iff split: option.splits)
qed

lemma map_of_filter_fresh:
  "map_of x k = None \<Longrightarrow> map_of (filter (\<lambda>(k, v). map_of x k = None) y) k = map_of y k"
  by (induction y) auto

lemma map_of_merge_sol:
  "map_of (merge_sol x y) k = (case map_of x k of Some v \<Rightarrow> Some v | None \<Rightarrow> map_of y k)"
  by (auto simp: merge_sol_def map_add_def map_of_filter_fresh split: option.splits)

lemma set_join:
  "set (join a b) = {merge_sol x y | x y. x \<in> set a \<and> y \<in> set b \<and> compatible x y}"
  by (auto simp: join_def)

lemma join_xform_eq:
  "join_xform t =
     (case (t JA, t JB) of
        (Some a, Some b) \<Rightarrow> (if join a b = [] then [] else [join a b])
      | _ \<Rightarrow> [])"
  by (simp add: join_xform_def xf_comp_def xf_map_def xf_filter_def split: option.splits)

text \<open>
  C8. The join node starts with no value. An update from either side becomes that
  side's latest solution set. When both sides have a latest set, the update computes
  their natural join and emits it if it is non-empty and emits nothing if it is empty;
  when the other side has not delivered yet, nothing is emitted. The natural join holds
  exactly the merged records of the pairs that bind every shared name to equal values.
\<close>

theorem join_emits_nonempty:
  assumes "join_next side v latest = (latest', out)"
  shows "addQueryJoin current = ((\<lambda>_. None), []) \<and>
         latest' = latest(side \<mapsto> v) \<and>
         (\<forall>a b. latest' JA = Some a \<longrightarrow> latest' JB = Some b \<longrightarrow>
            out = (if join a b = [] then [] else [join a b])) \<and>
         (latest' JA = None \<or> latest' JB = None \<longrightarrow> out = []) \<and>
         (\<forall>a b r. r \<in> set (join a b) \<longleftrightarrow>
            (\<exists>x \<in> set a. \<exists>y \<in> set b.
               (\<forall>k u w. map_of x k = Some u \<longrightarrow> map_of y k = Some w \<longrightarrow> u = w) \<and>
               r = merge_sol x y)) \<and>
         (\<forall>x y k. map_of (merge_sol x y) k =
            (case map_of x k of Some u \<Rightarrow> Some u | None \<Rightarrow> map_of y k))"
proof (intro conjI)
  show "addQueryJoin current = ((\<lambda>_. None), [])"
    by (simp add: addQueryJoin_def sync_wire_def)
  show l: "latest' = latest(side \<mapsto> v)"
    using assms by (auto simp: join_next_def sync_next_def Let_def)
  have o: "out = (if latest' JA \<noteq> None \<and> latest' JB \<noteq> None then join_xform latest' else [])"
    using assms by (auto simp: join_next_def sync_next_def Let_def)
  show "\<forall>a b. latest' JA = Some a \<longrightarrow> latest' JB = Some b \<longrightarrow>
            out = (if join a b = [] then [] else [join a b])"
    by (simp add: o join_xform_eq)
  show "latest' JA = None \<or> latest' JB = None \<longrightarrow> out = []"
    by (auto simp: o)
  show "\<forall>a b r. r \<in> set (join a b) \<longleftrightarrow>
            (\<exists>x \<in> set a. \<exists>y \<in> set b.
               (\<forall>k u w. map_of x k = Some u \<longrightarrow> map_of y k = Some w \<longrightarrow> u = w) \<and>
               r = merge_sol x y)"
    unfolding set_join compatible_iff by blast
  show "\<forall>x y k. map_of (merge_sol x y) k =
            (case map_of x k of Some u \<Rightarrow> Some u | None \<Rightarrow> map_of y k)"
    by (simp add: map_of_merge_sol)
qed

theorem join_emits_nonempty_witness:
  "snd (join_next JB [[(''b'', Num 2), (''c'', Num 3)]] [JA \<mapsto> [[(''a'', Num 1), (''b'', Num 2)]]]) =
     [[[(''a'', Num 1), (''b'', Num 2), (''c'', Num 3)]]] \<and>
   snd (join_next JB [[(''b'', Num 5)]] [JA \<mapsto> [[(''a'', Num 1), (''b'', Num 2)]]]) = [] \<and>
   snd (join_next JA [[(''a'', Num 1)]] (\<lambda>_. None)) = []"
proof -
  let ?a = "[[(''a'', Num 1), (''b'', Num 2)]]"
  let ?b1 = "[[(''b'', Num 2), (''c'', Num 3)]]"
  let ?b2 = "[[(''b'', Num 5)]]"
  have j1: "join ?a ?b1 = [[(''a'', Num 1), (''b'', Num 2), (''c'', Num 3)]]"
    by (simp add: join_def compatible_def merge_sol_def)
  have j2: "join ?a ?b2 = []"
    by (simp add: join_def compatible_def merge_sol_def)
  have 1: "snd (join_next JB ?b1 [JA \<mapsto> ?a]) = [join ?a ?b1]"
    using join_emits_nonempty[OF surjective_pairing, where side = JB and v = ?b1 and latest = "[JA \<mapsto> ?a]"] j1
    by simp
  have 2: "snd (join_next JB ?b2 [JA \<mapsto> ?a]) = []"
    using join_emits_nonempty[OF surjective_pairing, where side = JB and v = ?b2 and latest = "[JA \<mapsto> ?a]"] j2
    by simp
  have 3: "snd (join_next JA [[(''a'', Num 1)]] (\<lambda>_. None)) = []"
    using join_emits_nonempty[OF surjective_pairing, where side = JA and v = "[[(''a'', Num 1)]]"
        and latest = "\<lambda>_. None"]
    by simp
  show ?thesis using 1 2 3 j1 by simp
qed

section \<open>Claims about pattern queries\<close>



lemma pq_deliver_eq:
  "pq_deliver st f r q =
     (q\<lparr>qlatest := (qlatest q)(f \<mapsto> r)\<rparr>,
      if ((qlatest q)(f \<mapsto> r)) FS \<noteq> None \<and> ((qlatest q)(f \<mapsto> r)) FP \<noteq> None \<and>
         ((qlatest q)(f \<mapsto> r)) FO \<noteq> None
      then pq_xform st ((qlatest q)(f \<mapsto> r)) else [])"
  unfolding pq_deliver_def sync_next_def Let_def by simp




lemma pq_deliver_fields [simp]:
  "qpattern (fst (pq_deliver st f r q)) = qpattern q"
  "qemitTriples (fst (pq_deliver st f r q)) = qemitTriples q"
  "qlatest (fst (pq_deliver st f r q)) = (qlatest q)(f \<mapsto> r)"
  by (simp_all add: pq_deliver_eq)

lemma pq_deliver_all_append:
  "pq_deliver_all st (ds1 @ ds2) q =
     (case pq_deliver_all st ds1 q of (q1, o1) \<Rightarrow>
      case pq_deliver_all st ds2 q1 of (q2, o2) \<Rightarrow> (q2, o1 @ o2))"
  by (induction ds1 arbitrary: q) (auto split: prod.splits)

lemma pq_deliver_all_fields [simp]:
  "qpattern (fst (pq_deliver_all st ds q)) = qpattern q"
  "qemitTriples (fst (pq_deliver_all st ds q)) = qemitTriples q"
proof (induction ds arbitrary: q)
  case Nil
  { case 1 show ?case by simp }
  { case 2 show ?case by simp }
next
  case (Cons d ds)
  { case 1
    obtain f r where d: "d = (f, r)" by (cases d)
    show ?case using Cons(1)[of "fst (pq_deliver st f r q)"]
      by (simp add: d split: prod.splits) (metis fst_conv pq_deliver_fields(1)) }
  { case 2
    obtain f r where d: "d = (f, r)" by (cases d)
    show ?case using Cons(2)[of "fst (pq_deliver st f r q)"]
      by (simp add: d split: prod.splits) (metis fst_conv pq_deliver_fields(2)) }
qed

lemma pq_deliver_all_untouched:
  "f \<notin> fst ` set ds \<Longrightarrow> qlatest (fst (pq_deliver_all st ds q)) f = qlatest q f"
proof (induction ds arbitrary: q)
  case Nil
  then show ?case by simp
next
  case (Cons d ds)
  obtain g r where d: "d = (g, r)" by (cases d)
  have "qlatest (fst (pq_deliver_all st ds (fst (pq_deliver st g r q)))) f =
          qlatest (fst (pq_deliver st g r q)) f"
    using Cons by simp
  moreover have "g \<noteq> f" using Cons(2) d by auto
  ultimately show ?case by (simp add: d split: prod.splits) (metis fst_conv fun_upd_other pq_deliver_fields(3))
qed


lemma pq_deliver_silent:
  "qlatest q f = None \<Longrightarrow> f \<notin> fst ` set ds \<Longrightarrow> snd (pq_deliver_all st ds q) = []"
proof (induction ds arbitrary: q)
  case Nil
  then show ?case by simp
next
  case (Cons d ds)
  obtain g r where d: "d = (g, r)" by (cases d)
  let ?q1 = "fst (pq_deliver st g r q)"
  have gf: "g \<noteq> f" using Cons(3) d by auto
  then have n: "qlatest ?q1 f = None" using Cons(2) by simp
  have "((qlatest q)(g \<mapsto> r)) f = None" using gf Cons(2) by simp
  then have 1: "snd (pq_deliver st g r q) = []"
    by (cases f) (auto simp: pq_deliver_eq)
  have 2: "snd (pq_deliver_all st ds ?q1) = []" using Cons(1)[OF n] Cons(3) by simp
  show ?case using 1 2 by (simp add: d split: prod.splits) (metis fst_conv snd_conv)
qed

lemma sync_feed_pq:
  "sync_feed [FS, FP, FO] (pq_xform st) ds (qlatest q) =
     (qlatest (fst (pq_deliver_all st ds q)), snd (pq_deliver_all st ds q))"
proof (induction ds arbitrary: q)
  case Nil
  then show ?case by simp
next
  case (Cons d ds)
  obtain f r where d: "d = (f, r)" by (cases d)
  let ?q1 = "fst (pq_deliver st f r q)"
  have 1: "sync_next [FS, FP, FO] (pq_xform st) f r (qlatest q) =
             (qlatest ?q1, snd (pq_deliver st f r q))"
    by (simp add: pq_deliver_def split: prod.splits)
  have ih: "sync_feed [FS, FP, FO] (pq_xform st) ds (qlatest ?q1) =
     (qlatest (fst (pq_deliver_all st ds ?q1)), snd (pq_deliver_all st ds ?q1))"
    by (rule Cons)
  show ?case unfolding d
    by (simp only: sync_feed.simps 1 prod.case ih pq_deliver_all.simps case_prod_beta
        fst_conv snd_conv)
qed

lemma pq_feed_deliveries:
  "\<not> all_wild (qpattern q) \<Longrightarrow>
     pq_feed st evs q = pq_deliver_all st (concat (map (pq_deliveries (qpattern q)) evs)) q"
proof (induction evs arbitrary: q)
  case Nil
  then show ?case by simp
next
  case (Cons ev evs)
  let ?ds = "pq_deliveries (qpattern q) ev"
  let ?q1 = "fst (pq_deliver_all st ?ds q)"
  have n: "pq_next st ev q = pq_deliver_all st ?ds q" using Cons(2) by (simp add: pq_next_def)
  have p: "qpattern ?q1 = qpattern q" by simp
  have "pq_feed st evs ?q1 = pq_deliver_all st (concat (map (pq_deliveries (qpattern q)) evs)) ?q1"
    using Cons(1)[of ?q1] Cons(2) p by simp
  then show ?case
    by (simp add: n pq_deliver_all_append case_prod_beta)
qed

lemma pq_xform_cong: "(\<And>r. deref st r = deref st' r) \<Longrightarrow> pq_xform st = pq_xform st'"
  by (rule ext) (simp add: pq_xform_def split: option.splits)

lemma pq_deliver_all_cong:
  assumes "\<And>r. deref st r = deref st' r"
  shows "pq_deliver_all st ds q = pq_deliver_all st' ds q"
proof (induction ds arbitrary: q)
  case Nil
  then show ?case by simp
next
  case (Cons d ds)
  obtain f r where d: "d = (f, r)" by (cases d)
  have "pq_deliver st f r q = pq_deliver st' f r q"
    using pq_xform_cong[of st st', OF assms] by (simp add: pq_deliver_def)
  then show ?case using Cons by (simp add: d)
qed

lemma pat_field_simps [simp]:
  "pat_field FS (s, p, o') = s" "pat_field FP (s, p, o') = p" "pat_field FO (s, p, o') = o'"
  by (simp_all add: pat_field_def)

lemma select_all_data [simp]:
  "triples (select_all pat st) = triples st"
  "allIDs (select_all pat st) = allIDs st"
  "allSelections (select_all pat st) = allSelections st"
  "index_of f (select_all pat st) = index_of f st"
  "deref (select_all pat st) r = deref st r"
  by (simp_all add: select_all_def)

lemma submit_same_index:
  "index_of f st' = index_of f st \<Longrightarrow> submit f k st' = submit f k st"
  by (auto simp: submit_def split: option.splits)

lemma submit_events_select_all [simp]:
  "submit_events (select_all pat st) pat = submit_events st pat"
  by (simp add: submit_events_def submit_same_index[of _ "select_all pat st" st])

lemma pq_result_same_triples:
  "triples st' = triples st \<Longrightarrow> pq_result e st' = pq_result e st"
  by (rule ext) (simp add: pq_result_def asTriples_def)

lemma addPatternQuery_eq:
  assumes "\<not> all_wild pat"
  shows "addPatternQuery pat e st =
     (fold store_notify (submit_events st pat) (select_all pat st),
      fst (pq_deliver_all st
             (wire_deliveries (select_all pat st) pat @
              concat (map (pq_deliveries pat) (submit_events st pat)))
             (new_query pat e)),
      submit_events st pat,
      map (pq_result e st)
        (snd (pq_deliver_all st
             (wire_deliveries (select_all pat st) pat @
              concat (map (pq_deliveries pat) (submit_events st pat)))
             (new_query pat e))))"
proof -
  obtain s p o' where pat: "pat = (s, p, o')" by (cases pat)
  have nw: "\<not> (s = None \<and> p = None \<and> o' = None)" using assms by (simp add: pat all_wild_def)
  let ?st3 = "select_all pat st"
  let ?evs = "submit_events st pat"
  let ?st4 = "fold store_notify ?evs ?st3"
  let ?q0 = "new_query pat e"
  let ?w = "wire_deliveries ?st3 pat"
  let ?r0 = "pq_deliver_all st ?w ?q0"
  have st3: "getIndexSelection FO o' (getIndexSelection FP p (getIndexSelection FS s st)) = ?st3"
    by (simp add: select_all_def pat)
  have evs: "submit FS s ?st3 @ submit FP p ?st3 @ submit FO o' ?st3 = ?evs"
    using submit_events_select_all[of pat st] by (simp add: submit_events_def pat)
  have c3: "pq_deliver_all ?st3 ds q = pq_deliver_all st ds q" for ds q
    by (rule pq_deliver_all_cong) simp
  have c4: "pq_deliver_all ?st4 ds q = pq_deliver_all st ds q" for ds q
    by (rule pq_deliver_all_cong) simp
  have w: "sync_wire [FS, FP, FO] (pq_xform ?st3) True (source_last ?st3 pat) =
             (qlatest (fst ?r0), snd ?r0)"
    using sync_feed_pq[of ?st3 ?w ?q0]
    by (simp add: sync_wire_def wire_deliveries_def c3 new_query_def)
  have q0: "\<lparr>qpattern = pat, qemitTriples = e, qlatest = qlatest (fst ?r0)\<rparr> = fst ?r0"
    by (rule pquery.equality) (simp_all add: new_query_def)
  have f: "pq_feed ?st4 ?evs (fst ?r0) =
             pq_deliver_all st (concat (map (pq_deliveries pat) ?evs)) (fst ?r0)"
    using pq_feed_deliveries[of "fst ?r0" ?st4 ?evs] assms by (simp add: c4 new_query_def)
  have r: "pq_result e ?st4 = pq_result e st"
    by (rule pq_result_same_triples) simp
  have "addPatternQuery pat e st =
     (case pq_deliver_all st (concat (map (pq_deliveries pat) ?evs)) (fst ?r0) of
        (q1, out1) \<Rightarrow> (?st4, q1, ?evs, map (pq_result e st) (snd ?r0 @ out1)))"
    unfolding addPatternQuery_def pat prod.case Let_def
    using nw by (simp only: if_not_P if_False st3[unfolded pat] evs[unfolded pat] w[unfolded pat]
        prod.case q0[unfolded pat] f[unfolded pat] r[unfolded pat])
  then show ?thesis
    by (simp add: pq_deliver_all_append case_prod_beta)
qed

lemma src_ref_simps:
  "pat_field f pat = None \<Longrightarrow> src_ref pat f = RefAllIDs"
  "pat_field f pat = Some k \<Longrightarrow> src_ref pat f = RefIndex f k"
  by (simp_all add: src_ref_def)

lemma wire_deliveries_mem:
  "(f, r) \<in> set (wire_deliveries st pat) \<longleftrightarrow> source_last st pat f = Some r"
  by (cases f) (auto simp: wire_deliveries_def split: option.splits)

lemma inv_chan_select_all: "inv_chan st \<Longrightarrow> inv_chan (select_all pat st)"
  unfolding select_all_def by (intro inv_chan_getIndexSelection)

lemma source_last_ok:
  assumes "inv_chan st" "source_last st pat f = Some r"
  shows "r = src_ref pat f \<and> (\<forall>k. pat_field f pat = Some k \<longrightarrow> index_of f st k \<noteq> None)"
proof (cases "pat_field f pat")
  case None
  then have "allSelections st f = Some r" using assms(2) by (simp add: source_last_def)
  then have "r = RefAllIDs" using assms(1) unfolding inv_chan_def by blast
  then show ?thesis using None by (simp add: src_ref_def)
next
  case (Some k)
  then have "indexSelections st f k = Some (Some r)"
    using assms(2) by (simp add: source_last_def split: option.splits)
  then have "r = RefIndex f k \<and> index_of f st k \<noteq> None"
    using assms(1) unfolding inv_chan_def by blast
  then show ?thesis using Some by (simp add: src_ref_def)
qed

lemma submit_deliveries:
  "concat (map (pq_deliveries pat) (submit f (pat_field f pat) st)) =
     (case pat_field f pat of
        None \<Rightarrow> []
      | Some k \<Rightarrow> (if index_of f st k = None then [] else [(f, RefIndex f k)]))"
  by (auto simp: submit_def indexSel_def split: option.splits)

lemma submit_events_mem:
  "(f, r) \<in> set (concat (map (pq_deliveries pat) (submit_events st pat))) \<longleftrightarrow>
     (\<exists>k. pat_field f pat = Some k \<and> index_of f st k \<noteq> None \<and> r = RefIndex f k)"
proof -
  have "concat (map (pq_deliveries pat) (submit_events st pat)) =
          concat (map (pq_deliveries pat) (submit FS (pat_field FS pat) st)) @
          concat (map (pq_deliveries pat) (submit FP (pat_field FP pat) st)) @
          concat (map (pq_deliveries pat) (submit FO (pat_field FO pat) st))"
    by (simp add: submit_events_def)
  then show ?thesis
    unfolding submit_deliveries
    by (cases f) (auto split: option.splits if_splits)
qed

lemma add_events_mem:
  "(f, r) \<in> set (concat (map (pq_deliveries pat) (add_events t))) \<longleftrightarrow>
     (pat_field f pat = None \<and> r = RefAllIDs) \<or>
     (pat_field f pat = Some (field_of f t) \<and> r = RefIndex f (field_of f t))"
  by (cases f) (auto simp: add_events_def indexSel_def split: option.splits if_splits)

lemma addTriple_events:
  "fst (snd (addTriple t (n, st))) = (if has st t then [] else add_events t)"
proof (cases "has st t")
  case True
  then show ?thesis by (simp add: addTriple_dup)
next
  case False
  obtain st' where "addTriple t (n, st) = (True, add_events t, Suc n, st')"
    by (rule addTriple_fresh[OF False, of n])
  then show ?thesis using False by simp
qed

lemma add_notify_eq:
  assumes "\<not> all_wild (qpattern q)"
  shows "add_notify t ((n, st), q) =
     ((snd (snd (addTriple t (n, st))),
       fst (pq_deliver_all (snd (snd (snd (addTriple t (n, st)))))
              (concat (map (pq_deliveries (qpattern q)) (if has st t then [] else add_events t))) q)),
      map (pq_result (qemitTriples q) (snd (snd (snd (addTriple t (n, st))))))
        (snd (pq_deliver_all (snd (snd (snd (addTriple t (n, st)))))
              (concat (map (pq_deliveries (qpattern q)) (if has st t then [] else add_events t))) q)))"
  unfolding add_notify_def
  by (simp only: prod.case case_prod_beta pq_feed_deliveries[OF assms] addTriple_events fst_conv
      snd_conv)

lemma run_inserts_silent:
  assumes "pat_field f (qpattern q) = Some k" "qlatest q f = None" "\<forall>t \<in> set ts. field_of f t \<noteq> k"
  shows "snd (run_inserts ts (gs, q)) = []"
  using assms
proof (induction ts arbitrary: gs q)
  case Nil
  then show ?case by simp
next
  case (Cons t ts)
  obtain n st where gs: "gs = (n, st)" by (cases gs)
  have nw: "\<not> all_wild (qpattern q)"
    using Cons(2) by (cases "qpattern q"; cases f) (auto simp: all_wild_def)
  let ?st' = "snd (snd (snd (addTriple t (n, st))))"
  let ?ds = "concat (map (pq_deliveries (qpattern q)) (if has st t then [] else add_events t))"
  let ?q1 = "fst (pq_deliver_all ?st' ?ds q)"
  have nf: "f \<notin> fst ` set ?ds"
  proof
    assume "f \<in> fst ` set ?ds"
    then obtain d where "f = fst d" "d \<in> set ?ds" by (rule imageE)
    then have "(f, snd d) \<in> set ?ds" by simp
    then obtain r where "(f, r) \<in> set ?ds" ..
    then have "(f, r) \<in> set (concat (map (pq_deliveries (qpattern q)) (add_events t)))"
      by (cases "has st t") simp_all
    then have "pat_field f (qpattern q) = None \<or> pat_field f (qpattern q) = Some (field_of f t)"
      unfolding add_events_mem by blast
    then show False using Cons(2) Cons(4) by auto
  qed
  have o1: "snd (pq_deliver_all ?st' ?ds q) = []"
    using pq_deliver_silent[OF Cons(3) nf] .
  have l1: "qlatest ?q1 f = None"
    using pq_deliver_all_untouched[OF nf, of ?st' q] Cons(3) by simp
  have p1: "pat_field f (qpattern ?q1) = Some k" using Cons(2) by simp
  have ih: "snd (run_inserts ts (snd (snd (addTriple t (n, st))), ?q1)) = []"
    using Cons(1)[OF p1 l1] Cons(4) by simp
  show ?case
    unfolding gs run_inserts.simps add_notify_eq[OF nw]
    by (simp only: prod.case case_prod_beta fst_conv snd_conv ih o1 list.map append_Nil)
qed

text \<open>
  C10. In a reachable state, when a pattern has a concrete value in some field and that
  value has no entry in the field's index, \<open>addPatternQuery\<close> makes no replay push for
  that field, the source of that field has delivered nothing to the new query, and the
  returned subscription has emitted nothing, not even an empty set. It stays silent
  through every later insertion of triples whose field differs from that value.
\<close>

theorem addPatternQuery_silent:
  assumes "reachable (n, st)"
    and "pat_field f pat = Some k"
    and "index_of f st k = None"
    and "addPatternQuery pat e st = (st', q, evs, outs)"
  shows "submit f (pat_field f pat) st = [] \<and>
         (\<forall>k' ed. EmitSel f k' ed \<notin> set evs) \<and>
         outs = [] \<and>
         qlatest q f = None \<and>
         (\<forall>ts gs. (\<forall>t \<in> set ts. field_of f t \<noteq> k) \<longrightarrow> snd (run_inserts ts (gs, q)) = [])"
proof -
  have nw: "\<not> all_wild pat"
    using assms(2) by (cases pat; cases f) (auto simp: all_wild_def)
  let ?st3 = "select_all pat st"
  let ?ds = "wire_deliveries ?st3 pat @ concat (map (pq_deliveries pat) (submit_events st pat))"
  let ?q0 = "new_query pat e"
  note eq = addPatternQuery_eq[OF nw, of e st]
  have q: "q = fst (pq_deliver_all st ?ds ?q0)"
    and evs: "evs = submit_events st pat"
    and outs: "outs = map (pq_result e st) (snd (pq_deliver_all st ?ds ?q0))"
    using assms(4) unfolding eq by auto
  have ic: "inv_chan ?st3"
    using reachable_inv[OF assms(1)] by (simp add: store_inv_def inv_chan_select_all)
  have nf: "f \<notin> fst ` set ?ds"
  proof
    assume "f \<in> fst ` set ?ds"
    then obtain d where "f = fst d" "d \<in> set ?ds" by (rule imageE)
    then have "(f, snd d) \<in> set ?ds" by simp
    then obtain r where "(f, r) \<in> set ?ds" ..
    then have "(f, r) \<in> set (wire_deliveries ?st3 pat) \<or>
               (f, r) \<in> set (concat (map (pq_deliveries pat) (submit_events st pat)))"
      by (simp only: set_append Un_iff)
    then consider "source_last ?st3 pat f = Some r"
      | "\<exists>k. pat_field f pat = Some k \<and> index_of f st k \<noteq> None \<and> r = RefIndex f k"
      unfolding wire_deliveries_mem submit_events_mem by blast
    then show False
    proof cases
      case 1
      then show False using source_last_ok[OF ic 1] assms(2,3) by simp
    next
      case 2
      then show False using assms(2,3) by auto
    qed
  qed
  have 1: "submit f (pat_field f pat) st = []" using assms(2,3) by (simp add: submit_def)
  have 2: "\<forall>k' ed. EmitSel f k' ed \<notin> set evs"
    using 1 unfolding evs submit_events_def
    by (cases f) (auto simp: submit_def split: option.splits)
  have 3: "outs = []"
    unfolding outs using pq_deliver_silent[of ?q0 f ?ds st] nf by (simp add: new_query_def)
  have 4: "qlatest q f = None"
    unfolding q using pq_deliver_all_untouched[OF nf, of st ?q0] by (simp add: new_query_def)
  have p: "pat_field f (qpattern q) = Some k" unfolding q using assms(2) by (simp add: new_query_def)
  have 5: "\<forall>ts gs. (\<forall>t \<in> set ts. field_of f t \<noteq> k) \<longrightarrow> snd (run_inserts ts (gs, q)) = []"
    using run_inserts_silent[OF p 4] by blast
  show ?thesis using 1 2 3 4 5 by blast
qed

lemma reachable_addTriples: "reachable gs \<Longrightarrow> reachable (snd (snd (addTriples ts gs)))"
proof (induction ts arbitrary: gs)
  case Nil
  then show ?case by simp
next
  case (Cons t ts)
  have "reachable (snd (snd (addTriple t gs)))" using Cons(2) by (rule reach_add)
  then have "reachable (snd (snd (addTriples ts (snd (snd (addTriple t gs))))))" by (rule Cons(1))
  then show ?case by (simp add: case_prod_beta)
qed

lemma reachable_TripleStore: "reachable (TripleStore ts n)"
  unfolding TripleStore_def by (rule reachable_addTriples[OF reach_new])

lemma quadruple_collapse: "x = (fst x, fst (snd x), fst (snd (snd x)), snd (snd (snd x)))"
  by simp

theorem addPatternQuery_silent_witness:
  "reachable (TripleStore [(''a'', ''b'', ''c'')] 0) \<and>
   indexP (snd (TripleStore [(''a'', ''b'', ''c'')] 0)) ''z'' = None \<and>
   snd (snd (snd (addPatternQuery (Some ''a'', Some ''z'', None) False
                    (snd (TripleStore [(''a'', ''b'', ''c'')] 0))))) = []"
proof -
  let ?gs = "TripleStore [(''a'', ''b'', ''c'')] 0"
  let ?pat = "(Some ''a'', Some ''z'', None)"
  have r: "reachable (fst ?gs, snd ?gs)" using reachable_TripleStore[of "[(''a'', ''b'', ''c'')]" 0] by simp
  have p: "pat_field FP ?pat = Some ''z''" by simp
  have i: "index_of FP (snd ?gs) ''z'' = None"
    by (simp add: TripleStore_def addTriple_def new_TripleStore_def Let_def)
  show ?thesis
    using addPatternQuery_silent[OF r p i quadruple_collapse, of False] r i by simp
qed























end
